theory Spec2Isabelle
  imports Main "HOL-Library.Word" "HOL-Library.Sublist"
begin

section \<open>Thread affinity (affinity header)\<close>


text \<open>
  An error category is one of the standard library's; \<^verbatim>\<open>set_affinity\<close> uses the
  generic one only.
\<close>

datatype error_category = generic_category | system_category













section \<open>The thread pool (simple thread pool header)\<close>

subsection \<open>Tasks, the logger, exceptions\<close>

text \<open>
  A task is opaque to the pool. What the pool can observe of running it is whether
  the call returns, throws a \<^verbatim>\<open>std::exception\<close> (with its \<^verbatim>\<open>what()\<close>) or throws
  something else. The label tells tasks apart in the logs below.
  A \<^verbatim>\<open>std::function<void()>\<close> may be empty: \<open>None\<close>.
\<close>

datatype outcome = Returns | Throws_exception string | Throws_unknown

datatype task = Task (label: nat) (outcome: outcome)

type_synonym func = "task option"

datatype logger_outcome = Logger_returns | Logger_throws

type_synonym Logger = "(string \<Rightarrow> logger_outcome) option"

datatype thrown = Std_exception string | Unknown_exception

text \<open>The repository's \<^verbatim>\<open>Exception\<close> class, thrown by the constructor and by submit.\<close>

datatype error = Exception string

subsection \<open>The pool object\<close>

text \<open>
  Each worker thread runs \<^verbatim>\<open>wait_and_run\<close>. Its state is the place in that
  function where it stands:
  \<^item> \<open>Acquire\<close>: top of the loop, about to lock \<^verbatim>\<open>queue_mutex_\<close> (line 153);
  \<^item> \<open>Test_pred\<close>: inside \<^verbatim>\<open>state_changed_.wait(lk, pred)\<close>, holding the lock,
    about to evaluate the predicate (lines 154 to 157);
  \<^item> \<open>Enter_wait\<close>: the predicate was false; holding the lock, about to release it
    and block on the condition variable, which is one atomic action;
  \<^item> \<open>Blocked\<close>: blocked on the condition variable, the lock released;
  \<^item> \<open>Reacquire\<close>: unblocked, about to lock \<^verbatim>\<open>queue_mutex_\<close> again and test the
    predicate again;
  \<^item> \<open>Dispatch\<close>: the wait has returned; holding the lock, at line 158;
  \<^item> \<open>Executing t\<close>: the lock released, at \<^verbatim>\<open>func()\<close> (line 166) with the task taken;
  \<^item> \<open>Terminated\<close>: returned from \<^verbatim>\<open>wait_and_run\<close> (line 164);
  \<^item> \<open>Aborted a\<close>: the assertion \<open>a\<close> failed.
\<close>

datatype assertion = Queue_nonempty | Func_valid

datatype worker =
    Acquire
  | Test_pred
  | Enter_wait
  | Blocked
  | Reacquire
  | Dispatch
  | Executing task
  | Terminated
  | Aborted assertion

text \<open>
  The destructor: not yet called (\<open>Alive\<close>); holding \<^verbatim>\<open>work_mutex_\<close> and about to
  clear the flag (\<open>Clear_flag\<close>, line 45); about to call \<^verbatim>\<open>notify_all\<close>
  (\<open>Notify_all\<close>, line 46); about to join worker \<open>k\<close> (\<open>Join k\<close>, lines 47 to 50);
  returned (\<open>Destroyed\<close>).
\<close>

datatype destructor = Alive | Clear_flag | Notify_all | Join nat | Destroyed

text \<open>
  The data members keep their names without the trailing underscore.
  \<open>queue_mutex\<close> holds the index of the worker that owns the lock (the other
  users of that lock hold it for one atomic action only), \<open>work_mutex\<close> tells
  whether the lock is held. The condition variable \<^verbatim>\<open>state_changed_\<close> is the set
  of the workers that are \<open>Blocked\<close>. Three logs record what is observable from
  outside: the tasks taken from the queue, the tasks called, and the messages
  the logger was called with, each in order.
\<close>

record pool =
  queue :: "func list"
  queue_mutex :: "nat option"
  work_mutex :: bool
  workers :: "worker list"
  is_started :: bool
  logger :: Logger
  destructor :: destructor
  dequeued :: "task list"
  executed :: "task list"
  logged :: "string list"

subsection \<open>Construction\<close>

text \<open>The object after the member initialisers, before the constructor's body.\<close>

definition members :: "Logger \<Rightarrow> pool" where
  "members lg =
     \<lparr>queue = [], queue_mutex = None, work_mutex = False, workers = [],
      is_started = False, logger = lg, destructor = Alive,
      dequeued = [], executed = [], logged = []\<rparr>"

text \<open>
  The constructor's body (lines 89 to 97): the exception it leaves with, if any, and
  the object at that moment. Every worker thread starts at the top of
  \<^verbatim>\<open>wait_and_run\<close>.
\<close>

definition constructor_body :: "nat \<Rightarrow> pool \<Rightarrow> error option \<times> pool" where
  "constructor_body size' s =
     (if size' = 0
      then (Some (Exception ''cannot create thread pool: empty pool is not allowed''), s)
      else (None, s\<lparr>is_started := True, workers := replicate size' Acquire\<rparr>))"

definition Simple_thread_pool :: "nat \<Rightarrow> Logger \<Rightarrow> error + pool" where
  "Simple_thread_pool size' lg =
     (case constructor_body size' (members lg) of
        (Some e, _) \<Rightarrow> Inl e
      | (None, s) \<Rightarrow> Inr s)"

text \<open>
  The default constructor (lines 73 to 75) delegates with the host's
  \<^verbatim>\<open>std::thread::hardware_concurrency()\<close>, an \<^verbatim>\<open>unsigned int\<close>.
\<close>

definition Simple_thread_pool_default :: "32 word \<Rightarrow> Logger \<Rightarrow> error + pool" where
  "Simple_thread_pool_default hardware_concurrency lg =
     Simple_thread_pool (unat hardware_concurrency) lg"

subsection \<open>The public operations\<close>

text \<open>
  \<^verbatim>\<open>notify_one\<close> unblocks one of the blocked workers; which one is not
  determined, so the choice \<open>w\<close> is an argument. The choice is admissible when
  \<open>w\<close> is blocked, or when no worker is blocked and the call has no effect.
\<close>

definition notify_one :: "nat \<Rightarrow> worker list \<Rightarrow> worker list" where
  "notify_one w ws = (if w < length ws \<and> ws ! w = Blocked then ws[w := Reacquire] else ws)"

definition admissible :: "nat \<Rightarrow> worker list \<Rightarrow> bool" where
  "admissible w ws = ((w < length ws \<and> ws ! w = Blocked) \<or> Blocked \<notin> set ws)"

definition notify_all :: "worker list \<Rightarrow> worker list" where
  "notify_all ws = map (\<lambda>w. if w = Blocked then Reacquire else w) ws"

text \<open>
  submit, clear, \<^verbatim>\<open>queue_size\<close> and size, each as the atomic action it is once it has
  its lock (submit throws before it asks for the lock).
\<close>

definition submit :: "func \<Rightarrow> nat \<Rightarrow> pool \<Rightarrow> error + pool" where
  "submit function w s =
     (if function = None then Inl (Exception ''thread pool worker is invalid'')
      else Inr (s\<lparr>queue := queue s @ [function], workers := notify_one w (workers s)\<rparr>))"

definition clear :: "pool \<Rightarrow> pool" where
  "clear s = s\<lparr>queue := []\<rparr>"

definition queue_size :: "pool \<Rightarrow> nat" where
  "queue_size s = length (queue s)"

definition size_pool :: "pool \<Rightarrow> nat" where
  "size_pool s = length (workers s)"

subsection \<open>The worker\<close>

text \<open>
  \<^verbatim>\<open>log_error\<close> (lines 175 to 181): the logger, when there is one, is called with
  the message; whatever it throws is dropped.
\<close>

definition call_logger :: "(string \<Rightarrow> logger_outcome) \<Rightarrow> string \<Rightarrow> pool \<Rightarrow> thrown option \<times> pool" where
  "call_logger lg what s =
     (case lg what of
        Logger_returns \<Rightarrow> (None, s\<lparr>logged := logged s @ [what]\<rparr>)
      | Logger_throws \<Rightarrow> (Some Unknown_exception, s\<lparr>logged := logged s @ [what]\<rparr>))"

definition log_error :: "string \<Rightarrow> pool \<Rightarrow> pool" where
  "log_error what s =
     (case logger s of
        None \<Rightarrow> s
      | Some lg \<Rightarrow> (case call_logger lg what s of (_, s') \<Rightarrow> s'))"

text \<open>\<^verbatim>\<open>func()\<close> at line 166.\<close>

definition call :: "task \<Rightarrow> pool \<Rightarrow> thrown option \<times> pool" where
  "call t s =
     (case outcome t of
        Returns \<Rightarrow> (None, s\<lparr>executed := executed s @ [t]\<rparr>)
      | Throws_exception m \<Rightarrow> (Some (Std_exception m), s\<lparr>executed := executed s @ [t]\<rparr>)
      | Throws_unknown \<Rightarrow> (Some Unknown_exception, s\<lparr>executed := executed s @ [t]\<rparr>))"

text \<open>The call with the two handlers of lines 167 to 171 around it.\<close>

definition call_and_catch :: "task \<Rightarrow> pool \<Rightarrow> pool" where
  "call_and_catch t s =
     (case call t s of
        (None, s') \<Rightarrow> s'
      | (Some (Std_exception m), s') \<Rightarrow> log_error m s'
      | (Some Unknown_exception, s') \<Rightarrow> log_error ''unknown error'' s')"

definition set_worker :: "nat \<Rightarrow> worker \<Rightarrow> pool \<Rightarrow> pool" where
  "set_worker i w s = s\<lparr>workers := (workers s)[i := w]\<rparr>"

text \<open>
  One atomic action of worker \<open>i\<close> in \<^verbatim>\<open>wait_and_run\<close> (lines 147 to 173);
  \<open>None\<close> when the worker cannot move (it waits for the lock, is blocked, or has
  ended). Actions are atomic between two accesses to shared data that other
  threads can interleave with, under sequentially consistent interleaving.
\<close>

definition wait_and_run :: "nat \<Rightarrow> pool \<Rightarrow> pool option" where
  "wait_and_run i s =
     (if \<not> i < length (workers s) then None
      else case workers s ! i of
        Acquire \<Rightarrow>
          (if queue_mutex s = None
           then Some (set_worker i Test_pred (s\<lparr>queue_mutex := Some i\<rparr>))
           else None)
      | Test_pred \<Rightarrow>
          Some (set_worker i (if queue s \<noteq> [] \<or> \<not> is_started s then Dispatch else Enter_wait) s)
      | Enter_wait \<Rightarrow>
          Some (set_worker i Blocked (s\<lparr>queue_mutex := None\<rparr>))
      | Blocked \<Rightarrow> None
      | Reacquire \<Rightarrow>
          (if queue_mutex s = None
           then Some (set_worker i Test_pred (s\<lparr>queue_mutex := Some i\<rparr>))
           else None)
      | Dispatch \<Rightarrow>
          (if is_started s
           then (case queue s of
                   [] \<Rightarrow> Some (set_worker i (Aborted Queue_nonempty) s)
                 | None # q \<Rightarrow> Some (set_worker i (Aborted Func_valid) s)
                 | Some t # q \<Rightarrow>
                     Some (set_worker i (Executing t)
                            (s\<lparr>queue := q, queue_mutex := None, dequeued := dequeued s @ [t]\<rparr>)))
           else Some (set_worker i Terminated (s\<lparr>queue_mutex := None\<rparr>)))
      | Executing t \<Rightarrow> Some (set_worker i Acquire (call_and_catch t s))
      | Terminated \<Rightarrow> None
      | Aborted a \<Rightarrow> None)"

text \<open>
  A blocked worker may also be unblocked with no notification (a spurious wakeup,
  which the C++ standard allows and does not promise).
\<close>

definition spurious_wakeup :: "nat \<Rightarrow> pool \<Rightarrow> pool option" where
  "spurious_wakeup i s =
     (if i < length (workers s) \<and> workers s ! i = Blocked
      then Some (set_worker i Reacquire s) else None)"

subsection \<open>The destructor\<close>

text \<open>
  One atomic action of the destructor (lines 42 to 51); \<open>None\<close> when it cannot
  move: it waits for \<^verbatim>\<open>work_mutex_\<close>, or \<^verbatim>\<open>join\<close> waits for a worker that has
  not returned.
\<close>

definition destroy :: "pool \<Rightarrow> pool option" where
  "destroy s =
     (case destructor s of
        Alive \<Rightarrow>
          (if work_mutex s then None
           else Some (s\<lparr>work_mutex := True, destructor := Clear_flag\<rparr>))
      | Clear_flag \<Rightarrow> Some (s\<lparr>is_started := False, destructor := Notify_all\<rparr>)
      | Notify_all \<Rightarrow> Some (s\<lparr>workers := notify_all (workers s), destructor := Join 0\<rparr>)
      | Join k \<Rightarrow>
          (if k < length (workers s)
           then (if workers s ! k = Terminated then Some (s\<lparr>destructor := Join (Suc k)\<rparr>) else None)
           else Some (s\<lparr>work_mutex := False, destructor := Destroyed\<rparr>))
      | Destroyed \<Rightarrow> None)"

subsection \<open>Interleavings\<close>

text \<open>
  An event is one atomic action of one thread: a worker, the thread that runs the
  destructor, or a client thread that calls a public operation. A public operation
  that needs a lock is enabled when the lock is free. A submit that throws leaves
  the pool as it was.
\<close>

datatype event =
    Worker nat
  | Spurious nat
  | Destroy
  | Submit func nat
  | Clear
  | Queue_size
  | Size

fun step :: "event \<Rightarrow> pool \<Rightarrow> pool option" where
  "step (Worker i) s = wait_and_run i s"
| "step (Spurious i) s = spurious_wakeup i s"
| "step Destroy s = destroy s"
| "step (Submit f w) s =
     (case submit f w s of
        Inl e \<Rightarrow> Some s
      | Inr s' \<Rightarrow> (if queue_mutex s = None \<and> admissible w (workers s) then Some s' else None))"
| "step Clear s = (if queue_mutex s = None then Some (clear s) else None)"
| "step Queue_size s = (if queue_mutex s = None then Some s else None)"
| "step Size s = (if work_mutex s then None else Some s)"

fun run :: "event list \<Rightarrow> pool \<Rightarrow> pool option" where
  "run [] s = Some s"
| "run (e # es) s = (case step e s of None \<Rightarrow> None | Some s' \<Rightarrow> run es s')"

text \<open>The functions accepted by submit in a schedule, in order.\<close>

fun submitted :: "event list \<Rightarrow> func list" where
  "submitted [] = []"
| "submitted (Submit (Some t) w # es) = Some t # submitted es"
| "submitted (e # es) = submitted es"

text \<open>The task a worker has taken and not finished.\<close>

fun in_flight :: "worker \<Rightarrow> task list" where
  "in_flight (Executing t) = [t]"
| "in_flight w = []"


subsection \<open>Predicates used in the proofs\<close>

text \<open>
  The places of \<^verbatim>\<open>wait_and_run\<close> where the worker owns \<^verbatim>\<open>queue_mutex_\<close> (an
  assertion that fails ends the process with the lock held).
\<close>

fun holds_lock :: "worker \<Rightarrow> bool" where
  "holds_lock Test_pred = True"
| "holds_lock Enter_wait = True"
| "holds_lock Dispatch = True"
| "holds_lock (Aborted a) = True"
| "holds_lock w = False"

fun is_aborted :: "worker \<Rightarrow> bool" where
  "is_aborted (Aborted a) = True"
| "is_aborted w = False"

text \<open>
  What holds of worker \<open>j\<close> in every reachable state: where it owns the lock the
  lock records it as the owner; past the wait, the queue has an item or the pool
  is stopped; no assertion has failed.
\<close>

definition worker_ok :: "pool \<Rightarrow> nat \<Rightarrow> worker \<Rightarrow> bool" where
  "worker_ok s j w =
     ((holds_lock w \<longrightarrow> queue_mutex s = Some j)
      \<and> (w = Dispatch \<longrightarrow> queue s \<noteq> [] \<or> \<not> is_started s)
      \<and> \<not> is_aborted w)"

definition pool_inv :: "pool \<Rightarrow> bool" where
  "pool_inv s =
     ((\<forall>j < length (workers s). worker_ok s j (workers s ! j)) \<and> None \<notin> set (queue s))"

text \<open>The tasks that workers have taken and not finished, and the tasks the pool holds
  or has called.\<close>

definition tasks_in_flight :: "worker list \<Rightarrow> task set" where
  "tasks_in_flight ws = (\<Union>w \<in> set ws. set (in_flight w))"

definition tasks_present :: "pool \<Rightarrow> task set" where
  "tasks_present s =
     set (executed s) \<union> tasks_in_flight (workers s) \<union> {t. Some t \<in> set (queue s)}"


section \<open>Thread affinity: validation and the single OS call\<close>






section \<open>Construction errors\<close>

text \<open>
  C7. Constructing a pool with size 0 fails with the configuration error; the
  constructor leaves before it marks the pool running and before it starts a
  worker.
\<close>

theorem C7_zero_size_rejected:
  "Simple_thread_pool 0 lg =
     Inl (Exception ''cannot create thread pool: empty pool is not allowed'')
   \<and> fst (constructor_body 0 (members lg)) \<noteq> None
   \<and> workers (snd (constructor_body 0 (members lg))) = []
   \<and> \<not> is_started (snd (constructor_body 0 (members lg)))"
  by (simp add: Simple_thread_pool_def constructor_body_def members_def)

text \<open>
  C10. The default constructor passes the host's hardware concurrency as the size;
  where the host reports 0 it fails with the zero-size error.
\<close>

theorem C10_default_size_zero:
  "Simple_thread_pool_default hc lg = Simple_thread_pool (unat hc) lg
   \<and> Simple_thread_pool_default 0 lg =
       Inl (Exception ''cannot create thread pool: empty pool is not allowed'')"
  by (simp add: Simple_thread_pool_default_def Simple_thread_pool_def constructor_body_def
      members_def)


section \<open>Facts about single actions\<close>

text \<open>Calling a task changes the two logs and nothing else, whatever the task and the
  logger do.\<close>

lemma call_and_catch_eq:
  "call_and_catch t s =
     s\<lparr>executed := executed s @ [t],
       logged := logged s @
         (case logger s of
            None \<Rightarrow> []
          | Some lg \<Rightarrow>
              (case outcome t of
                 Returns \<Rightarrow> []
               | Throws_exception m \<Rightarrow> [m]
               | Throws_unknown \<Rightarrow> [''unknown error'']))\<rparr>"
  by (simp add: call_and_catch_def call_def log_error_def call_logger_def
      split: outcome.splits option.splits logger_outcome.splits)

lemmas exec_simps =
  Simple_thread_pool_def constructor_body_def members_def wait_and_run_def set_worker_def
  destroy_def spurious_wakeup_def submit_def clear_def notify_one_def notify_all_def
  admissible_def queue_size_def size_pool_def call_and_catch_eq

lemma notify_all_nth:
  "i < length ws \<Longrightarrow> notify_all ws ! i = (if ws ! i = Blocked then Reacquire else ws ! i)"
  by (simp add: notify_all_def)

lemma notify_all_length: "length (notify_all ws) = length ws"
  by (simp add: notify_all_def)

lemma notify_one_length: "length (notify_one w ws) = length ws"
  by (simp add: notify_one_def)

lemma notify_one_nth:
  "i < length ws \<Longrightarrow>
     notify_one w ws ! i = (if i = w \<and> ws ! i = Blocked then Reacquire else ws ! i)"
  by (auto simp: notify_one_def nth_list_update)

lemma run_Cons_Some:
  assumes "run (e # es) s = Some s'"
  obtains s1 where "step e s = Some s1" and "run es s1 = Some s'"
  using assms by (auto split: option.splits)

lemma submitted_Cons: "submitted (e # es) = submitted [e] @ submitted es"
proof (cases e)
  case (Submit f w)
  then show ?thesis by (cases f) simp_all
qed simp_all

lemma constructed:
  assumes "Simple_thread_pool n lg = Inr s0"
  shows "s0 = (members lg)\<lparr>is_started := True, workers := replicate n Acquire\<rparr>"
  using assms by (auto simp: Simple_thread_pool_def constructor_body_def split: if_splits)


section \<open>The worker count\<close>

lemma step_length_workers:
  "step e s = Some s' \<Longrightarrow> length (workers s') = length (workers s)"
  by (cases e)
     (auto simp: wait_and_run_def spurious_wakeup_def destroy_def submit_def clear_def
        set_worker_def notify_one_def notify_all_def call_and_catch_eq
        split: if_splits worker.splits destructor.splits list.splits option.splits)

lemma run_length_workers:
  "run es s = Some s' \<Longrightarrow> length (workers s') = length (workers s)"
proof (induction es arbitrary: s)
  case Nil
  then show ?case by simp
next
  case (Cons e es)
  from Cons.prems obtain s1 where "step e s = Some s1" and "run es s1 = Some s'"
    by (rule run_Cons_Some)
  with Cons.IH [of s1] step_length_workers [of e s s1] show ?case by simp
qed

text \<open>
  C9. A pool constructed with size \<open>n \<ge> 1\<close> starts \<open>n\<close> workers, and after any
  interleaving of worker actions, destructor actions and calls of submit, clear,
  \<^verbatim>\<open>queue_size\<close> and size, the value size() reads is still \<open>n\<close>. (Failure to allocate
  or to start a thread is outside the model.)
\<close>

theorem C9_size_constant:
  "(0 < n \<longrightarrow> (\<exists>s0. Simple_thread_pool n lg = Inr s0 \<and> workers s0 = replicate n Acquire
        \<and> is_started s0 \<and> size_pool s0 = n))
   \<and> (\<forall>s0 es s. Simple_thread_pool n lg = Inr s0 \<and> run es s0 = Some s \<longrightarrow> size_pool s = n)"
proof (intro conjI impI allI)
  assume "0 < n"
  then show "\<exists>s0. Simple_thread_pool n lg = Inr s0 \<and> workers s0 = replicate n Acquire
        \<and> is_started s0 \<and> size_pool s0 = n"
    by (simp add: Simple_thread_pool_def constructor_body_def size_pool_def)
next
  fix s0 es s
  assume a: "Simple_thread_pool n lg = Inr s0 \<and> run es s0 = Some s"
  then have "length (workers s0) = n"
    by (auto dest: constructed)
  with a run_length_workers [of es s0 s] show "size_pool s = n"
    by (simp add: size_pool_def)
qed

theorem C9_size_constant_witness:
  "\<exists>s0 s. Simple_thread_pool 3 None = Inr s0
     \<and> workers s0 = [Acquire, Acquire, Acquire]
     \<and> run [Submit (Some (Task 1 Returns)) 0, Queue_size, Size, Worker 1, Worker 1,
             Worker 1, Clear, Worker 1, Destroy] s0 = Some s
     \<and> size_pool s0 = 3 \<and> size_pool s = 3"
proof -
  let ?es = "[Submit (Some (Task 1 Returns)) 0, Queue_size, Size, Worker 1, Worker 1,
             Worker 1, Clear, Worker 1, Destroy]"
  have "(0::nat) < 3" by simp
  with C9_size_constant [of 3 None, THEN conjunct1] obtain s0
    where s0: "Simple_thread_pool 3 None = Inr s0"
      and w0: "workers s0 = replicate 3 Acquire" and n0: "size_pool s0 = 3"
    by blast
  from w0 have w0': "workers s0 = [Acquire, Acquire, Acquire]"
    by (simp add: numeral_3_eq_3)
  from constructed [OF s0] have "run ?es s0 \<noteq> None"
    by (simp add: exec_simps numeral_3_eq_3)
  then obtain s where s: "run ?es s0 = Some s"
    by blast
  note size_kept = C9_size_constant [of 3 None, THEN conjunct2, rule_format]
  from s0 s have "size_pool s = 3"
    by (intro size_kept [of s0 ?es s] conjI)
  with s0 w0' s n0 show ?thesis by blast
qed


section \<open>Rejected and failing tasks\<close>

text \<open>
  C4. submit with an empty callable throws the "invalid task" exception; the pool,
  and with it the queue and \<^verbatim>\<open>queue_size\<close>(), is unchanged, and nothing is recorded as
  submitted. It throws before it asks for the lock, so it does so in every state.
\<close>

theorem C4_invalid_task_rejected:
  "submit None w s = Inl (Exception ''thread pool worker is invalid'')
   \<and> step (Submit None w) s = Some s
   \<and> queue_size (case step (Submit None w) s of Some s' \<Rightarrow> s' | None \<Rightarrow> s) = queue_size s
   \<and> run (Submit None w # es) s = run es s
   \<and> submitted (Submit None w # es) = submitted es"
  by (simp add: submit_def)

text \<open>
  C3. A worker that is calling a task always completes the action and stands at the
  top of its loop afterwards, whatever the task and the logger do: it neither
  terminates nor aborts. The task counts as called. The message of a
  \<^verbatim>\<open>std::exception\<close>, or "unknown error" for anything else thrown, is passed to the
  logger when there is one, also when the logger itself throws; with no logger, or
  when the task returns, nothing is logged. Queue and flag are untouched.
\<close>

theorem C3_failure_contained:
  assumes "i < length (workers s)" and "workers s ! i = Executing t"
  shows "\<exists>s'. wait_and_run i s = Some s'
     \<and> workers s' = (workers s)[i := Acquire]
     \<and> executed s' = executed s @ [t]
     \<and> queue s' = queue s \<and> is_started s' = is_started s
     \<and> (outcome t = Returns \<or> logger s = None \<longrightarrow> logged s' = logged s)
     \<and> (\<forall>m. outcome t = Throws_exception m \<and> logger s \<noteq> None \<longrightarrow> logged s' = logged s @ [m])
     \<and> (outcome t = Throws_unknown \<and> logger s \<noteq> None \<longrightarrow>
          logged s' = logged s @ [''unknown error''])"
  using assms
  by (auto simp: wait_and_run_def set_worker_def call_and_catch_eq split: option.splits)

text \<open>A pool with one worker and a logger that throws. The first task throws an
  exception, the second throws something else, the third returns: both messages reach
  the logger, and all three tasks are called. Without a logger nothing is logged.\<close>

theorem C3_failure_contained_witness:
  "\<exists>s0 s1 s2 s3 s4 s5 s6 u0 u1 u2.
     Simple_thread_pool 1 (Some (\<lambda>m. Logger_throws)) = Inr s0
     \<and> run [Submit (Some (Task 1 (Throws_exception ''boom''))) 0,
             Submit (Some (Task 2 Throws_unknown)) 0, Submit (Some (Task 3 Returns)) 0,
             Worker 0, Worker 0, Worker 0] s0 = Some s1
     \<and> workers s1 = [Executing (Task 1 (Throws_exception ''boom''))]
     \<and> wait_and_run 0 s1 = Some s2 \<and> workers s2 = [Acquire] \<and> logged s2 = [''boom'']
     \<and> run [Worker 0, Worker 0, Worker 0] s2 = Some s3
     \<and> workers s3 = [Executing (Task 2 Throws_unknown)]
     \<and> wait_and_run 0 s3 = Some s4 \<and> workers s4 = [Acquire]
     \<and> logged s4 = [''boom'', ''unknown error'']
     \<and> run [Worker 0, Worker 0, Worker 0] s4 = Some s5
     \<and> workers s5 = [Executing (Task 3 Returns)]
     \<and> wait_and_run 0 s5 = Some s6 \<and> workers s6 = [Acquire]
     \<and> logged s6 = [''boom'', ''unknown error'']
     \<and> executed s6 = [Task 1 (Throws_exception ''boom''), Task 2 Throws_unknown, Task 3 Returns]
     \<and> Simple_thread_pool 1 None = Inr u0
     \<and> run [Submit (Some (Task 1 (Throws_exception ''boom''))) 0,
             Worker 0, Worker 0, Worker 0] u0 = Some u1
     \<and> wait_and_run 0 u1 = Some u2 \<and> workers u2 = [Acquire] \<and> logged u2 = []"
proof -
  let ?a = "Task 1 (Throws_exception ''boom'')" and ?b = "Task 2 Throws_unknown"
    and ?c = "Task 3 Returns"
  let ?s0 = "(members (Some (\<lambda>m. Logger_throws)))\<lparr>is_started := True, workers := [Acquire]\<rparr>"
  let ?s1 = "?s0\<lparr>queue := [Some ?b, Some ?c], workers := [Executing ?a], dequeued := [?a]\<rparr>"
  let ?s3 = "?s0\<lparr>queue := [Some ?c], workers := [Executing ?b], dequeued := [?a, ?b],
               executed := [?a], logged := [''boom'']\<rparr>"
  let ?s5 = "?s0\<lparr>queue := [], workers := [Executing ?c], dequeued := [?a, ?b, ?c],
               executed := [?a, ?b], logged := [''boom'', ''unknown error'']\<rparr>"
  let ?u0 = "(members None)\<lparr>is_started := True, workers := [Acquire]\<rparr>"
  let ?u1 = "?u0\<lparr>workers := [Executing ?a], dequeued := [?a]\<rparr>"
  have s0: "Simple_thread_pool 1 (Some (\<lambda>m. Logger_throws)) = Inr ?s0"
    by (simp add: exec_simps)
  have s1: "run [Submit (Some ?a) 0, Submit (Some ?b) 0, Submit (Some ?c) 0,
             Worker 0, Worker 0, Worker 0] ?s0 = Some ?s1"
    by (simp add: exec_simps)
  have "0 < length (workers ?s1)" and "workers ?s1 ! 0 = Executing ?a"
    by simp_all
  from C3_failure_contained [OF this] obtain s2 where
    s2: "wait_and_run 0 ?s1 = Some s2" "workers s2 = (workers ?s1)[0 := Acquire]"
      "logged s2 = logged ?s1 @ [''boom'']"
    by (auto simp: members_def)
  from s2(1) have s2_eq: "s2 = ?s1\<lparr>workers := [Acquire], executed := [?a], logged := [''boom'']\<rparr>"
    by (simp add: exec_simps)
  have s3: "run [Worker 0, Worker 0, Worker 0] s2 = Some ?s3"
    unfolding s2_eq by (simp add: exec_simps)
  have "0 < length (workers ?s3)" and "workers ?s3 ! 0 = Executing ?b"
    by simp_all
  from C3_failure_contained [OF this] obtain s4 where
    s4: "wait_and_run 0 ?s3 = Some s4" "workers s4 = (workers ?s3)[0 := Acquire]"
      "logged s4 = logged ?s3 @ [''unknown error'']"
    by (auto simp: members_def)
  from s4(1) have s4_eq: "s4 = ?s3\<lparr>workers := [Acquire], executed := [?a, ?b],
      logged := [''boom'', ''unknown error'']\<rparr>"
    by (simp add: exec_simps)
  have s5: "run [Worker 0, Worker 0, Worker 0] s4 = Some ?s5"
    unfolding s4_eq by (simp add: exec_simps)
  have "0 < length (workers ?s5)" and "workers ?s5 ! 0 = Executing ?c"
    by simp_all
  from C3_failure_contained [OF this] obtain s6 where
    s6: "wait_and_run 0 ?s5 = Some s6" "workers s6 = (workers ?s5)[0 := Acquire]"
      "logged s6 = logged ?s5" "executed s6 = executed ?s5 @ [?c]"
    by (auto simp: members_def)
  have u0: "Simple_thread_pool 1 None = Inr ?u0"
    by (simp add: exec_simps)
  have u1: "run [Submit (Some ?a) 0, Worker 0, Worker 0, Worker 0] ?u0 = Some ?u1"
    by (simp add: exec_simps)
  have "0 < length (workers ?u1)" and "workers ?u1 ! 0 = Executing ?a"
    by simp_all
  from C3_failure_contained [OF this] obtain u2 where
    u2: "wait_and_run 0 ?u1 = Some u2" "workers u2 = (workers ?u1)[0 := Acquire]"
      "logged u2 = logged ?u1"
    by (auto simp: members_def)
  have w1: "workers ?s1 = [Executing ?a]" and w3: "workers ?s3 = [Executing ?b]"
    and w5: "workers ?s5 = [Executing ?c]"
    by simp_all
  from s2(2,3) have r2: "workers s2 = [Acquire]" "logged s2 = [''boom'']"
    by (simp_all add: members_def)
  from s4(2,3) have r4: "workers s4 = [Acquire]" "logged s4 = [''boom'', ''unknown error'']"
    by simp_all
  from s6(2,3,4) have r6: "workers s6 = [Acquire]" "logged s6 = [''boom'', ''unknown error'']"
    "executed s6 = [?a, ?b, ?c]"
    by simp_all
  from u2(2,3) have r8: "workers u2 = [Acquire]" "logged u2 = []"
    by (simp_all add: members_def)
  show ?thesis
    by (intro exI conjI)
      (rule s0 s1 w1 s2(1) r2 s3 w3 s4(1) r4 s5 w5 s6(1) r6 u0 u1 u2(1) r8)+
qed


section \<open>The invariant of the reachable states\<close>

text \<open>
  Every action keeps \<open>pool_inv\<close>. An action of worker \<open>i\<close> changes the place of
  that worker only; the other workers are checked against the new lock, queue and
  flag.
\<close>

lemma pool_inv_update:
  assumes "pool_inv s" and "i < length (workers s)"
    and "workers s' = (workers s)[i := w]"
    and "\<And>j v. j \<noteq> i \<Longrightarrow> worker_ok s j v \<Longrightarrow> worker_ok s' j v"
    and "worker_ok s' i w"
    and "None \<notin> set (queue s')"
  shows "pool_inv s'"
  unfolding pool_inv_def
proof (intro conjI allI impI)
  fix j assume "j < length (workers s')"
  with assms(3) have j: "j < length (workers s)" by simp
  show "worker_ok s' j (workers s' ! j)"
  proof (cases "j = i")
    case True
    with assms(2,3,5) show ?thesis by simp
  next
    case False
    from assms(1) j have "worker_ok s j (workers s ! j)" by (simp add: pool_inv_def)
    with False assms(4) have "worker_ok s' j (workers s ! j)" by blast
    with False assms(3) show ?thesis by simp
  qed
next
  from assms(6) show "None \<notin> set (queue s')" .
qed

lemma pool_inv_nth:
  "pool_inv s \<Longrightarrow> i < length (workers s) \<Longrightarrow> worker_ok s i (workers s ! i)"
  by (simp add: pool_inv_def)

lemma pool_inv_queue: "pool_inv s \<Longrightarrow> None \<notin> set (queue s)"
  by (simp add: pool_inv_def)

lemma worker_preserves:
  assumes inv: "pool_inv s" and st: "wait_and_run i s = Some s'"
  shows "pool_inv s'"
proof -
  from st have i: "i < length (workers s)"
    by (simp add: wait_and_run_def split: if_splits)
  note ok = pool_inv_nth [OF inv i]
  note q = pool_inv_queue [OF inv]
  show ?thesis
  proof (cases "workers s ! i")
    case Acquire
    with st i have free: "queue_mutex s = None"
      and s': "s' = set_worker i Test_pred (s\<lparr>queue_mutex := Some i\<rparr>)"
      by (simp_all add: wait_and_run_def split: if_splits)
    show ?thesis
      by (rule pool_inv_update [OF inv i, where w = Test_pred])
        (use q free in \<open>auto simp: s' set_worker_def worker_ok_def\<close>)
  next
    case Test_pred
    with st i have s': "s' = set_worker i (if queue s \<noteq> [] \<or> \<not> is_started s then Dispatch else Enter_wait) s"
      by (simp add: wait_and_run_def)
    show ?thesis
      by (rule pool_inv_update [OF inv i,
            where w = "if queue s \<noteq> [] \<or> \<not> is_started s then Dispatch else Enter_wait"])
        (use q ok Test_pred in \<open>auto simp: s' set_worker_def worker_ok_def\<close>)
  next
    case Enter_wait
    with st i have s': "s' = set_worker i Blocked (s\<lparr>queue_mutex := None\<rparr>)"
      by (simp add: wait_and_run_def)
    show ?thesis
      by (rule pool_inv_update [OF inv i, where w = Blocked])
        (use q ok Enter_wait in \<open>auto simp: s' set_worker_def worker_ok_def\<close>)
  next
    case Blocked
    with st i show ?thesis by (simp add: wait_and_run_def)
  next
    case Reacquire
    with st i have free: "queue_mutex s = None"
      and s': "s' = set_worker i Test_pred (s\<lparr>queue_mutex := Some i\<rparr>)"
      by (simp_all add: wait_and_run_def split: if_splits)
    show ?thesis
      by (rule pool_inv_update [OF inv i, where w = Test_pred])
        (use q free in \<open>auto simp: s' set_worker_def worker_ok_def\<close>)
  next
    case Dispatch
    show ?thesis
    proof (cases "is_started s")
      case False
      with Dispatch st i have s': "s' = set_worker i Terminated (s\<lparr>queue_mutex := None\<rparr>)"
        by (simp add: wait_and_run_def)
      show ?thesis
        by (rule pool_inv_update [OF inv i, where w = Terminated])
          (use q ok Dispatch in \<open>auto simp: s' set_worker_def worker_ok_def\<close>)
    next
      case True
      with ok Dispatch have "queue s \<noteq> []" by (simp add: worker_ok_def)
      then obtain f r where fr: "queue s = f # r"
        by (cases "queue s") auto
      with q obtain t where "f = Some t" by (cases f) auto
      with fr have qs: "queue s = Some t # r" by simp
      with True Dispatch st i have s': "s' = set_worker i (Executing t)
          (s\<lparr>queue := r, queue_mutex := None, dequeued := dequeued s @ [t]\<rparr>)"
        by (simp add: wait_and_run_def)
      show ?thesis
        by (rule pool_inv_update [OF inv i, where w = "Executing t"])
          (use q ok Dispatch qs in \<open>auto simp: s' set_worker_def worker_ok_def\<close>)
    qed
  next
    case (Executing t)
    with st i have s': "s' = set_worker i Acquire (call_and_catch t s)"
      by (simp add: wait_and_run_def)
    show ?thesis
      by (rule pool_inv_update [OF inv i, where w = Acquire])
        (use q in \<open>auto simp: s' set_worker_def worker_ok_def call_and_catch_eq\<close>)
  next
    case Terminated
    with st i show ?thesis by (simp add: wait_and_run_def)
  next
    case (Aborted a)
    with st i show ?thesis by (simp add: wait_and_run_def)
  qed
qed


lemma pool_inv_pointwise:
  assumes "pool_inv s" and "length (workers s') = length (workers s)"
    and "\<And>j. j < length (workers s) \<Longrightarrow> worker_ok s j (workers s ! j) \<Longrightarrow>
           worker_ok s' j (workers s' ! j)"
    and "None \<notin> set (queue s')"
  shows "pool_inv s'"
  using assms by (simp add: pool_inv_def)

lemma spurious_preserves:
  assumes inv: "pool_inv s" and st: "spurious_wakeup i s = Some s'"
  shows "pool_inv s'"
proof -
  from st have i: "i < length (workers s)" and s': "s' = set_worker i Reacquire s"
    by (simp_all add: spurious_wakeup_def split: if_splits)
  show ?thesis
    by (rule pool_inv_update [OF inv i, where w = Reacquire])
      (use pool_inv_queue [OF inv] in \<open>auto simp: s' set_worker_def worker_ok_def\<close>)
qed

lemma destroy_preserves:
  assumes inv: "pool_inv s" and st: "destroy s = Some s'"
  shows "pool_inv s'"
proof (rule pool_inv_pointwise [OF inv])
  from st show "length (workers s') = length (workers s)"
    by (auto simp: destroy_def notify_all_length split: destructor.splits if_splits)
  from st pool_inv_queue [OF inv] show "None \<notin> set (queue s')"
    by (auto simp: destroy_def split: destructor.splits if_splits)
  fix j assume "j < length (workers s)" "worker_ok s j (workers s ! j)"
  with st show "worker_ok s' j (workers s' ! j)"
    by (auto simp: destroy_def worker_ok_def notify_all_nth split: destructor.splits if_splits)
qed

lemma submit_preserves:
  assumes inv: "pool_inv s" and st: "step (Submit f w) s = Some s'"
  shows "pool_inv s'"
proof (cases f)
  case None
  with st inv show ?thesis by (simp add: submit_def)
next
  case (Some t)
  with st have s': "s' = s\<lparr>queue := queue s @ [Some t], workers := notify_one w (workers s)\<rparr>"
    by (simp add: submit_def split: if_splits)
  show ?thesis
  proof (rule pool_inv_pointwise [OF inv])
    show "length (workers s') = length (workers s)" by (simp add: s' notify_one_length)
    from pool_inv_queue [OF inv] show "None \<notin> set (queue s')" by (simp add: s')
    fix j assume "j < length (workers s)" "worker_ok s j (workers s ! j)"
    then show "worker_ok s' j (workers s' ! j)"
      by (auto simp: s' worker_ok_def notify_one_nth)
  qed
qed

lemma clear_preserves:
  assumes inv: "pool_inv s" and free: "queue_mutex s = None"
  shows "pool_inv (clear s)"
proof (rule pool_inv_pointwise [OF inv])
  show "length (workers (clear s)) = length (workers s)" by (simp add: clear_def)
  show "None \<notin> set (queue (clear s))" by (simp add: clear_def)
  fix j assume "j < length (workers s)" "worker_ok s j (workers s ! j)"
  with free show "worker_ok (clear s) j (workers (clear s) ! j)"
    by (auto simp: clear_def worker_ok_def)
qed

lemma step_preserves:
  assumes "pool_inv s" and "step e s = Some s'"
  shows "pool_inv s'"
proof (cases e)
  case (Worker i)
  with assms show ?thesis by (simp add: worker_preserves)
next
  case (Spurious i)
  with assms show ?thesis by (simp add: spurious_preserves)
next
  case Destroy
  with assms show ?thesis by (simp add: destroy_preserves)
next
  case (Submit f w)
  with assms show ?thesis by (simp only: submit_preserves)
next
  case Clear
  with assms show ?thesis by (auto simp: clear_preserves split: if_splits)
next
  case Queue_size
  with assms show ?thesis by (auto split: if_splits)
next
  case Size
  with assms show ?thesis by (auto split: if_splits)
qed

lemma run_preserves:
  "pool_inv s \<Longrightarrow> run es s = Some s' \<Longrightarrow> pool_inv s'"
proof (induction es arbitrary: s)
  case Nil
  then show ?case by simp
next
  case (Cons e es)
  from Cons.prems(2) obtain s1 where e: "step e s = Some s1" and es: "run es s1 = Some s'"
    by (rule run_Cons_Some)
  from step_preserves [OF Cons.prems(1) e] es show ?case
    by (rule Cons.IH)
qed

lemma constructed_inv:
  assumes "Simple_thread_pool n lg = Inr s0"
  shows "pool_inv s0"
  unfolding constructed [OF assms]
  by (simp add: pool_inv_def worker_ok_def members_def)

text \<open>
  C5. In every state reachable from a constructed pool, a worker that has passed
  its wait finds an item in the queue or the pool stopped; so when it then sees the
  pool running the queue is not empty, and no worker is ever stopped by the failed
  assertion of line 159.
\<close>

theorem C5_assertion_never_fails:
  assumes "Simple_thread_pool n lg = Inr s0" and "run es s0 = Some s"
    and "i < length (workers s)"
  shows "(workers s ! i = Dispatch \<and> is_started s \<longrightarrow> queue s \<noteq> [])
    \<and> (workers s ! i = Dispatch \<longrightarrow> queue s \<noteq> [] \<or> \<not> is_started s)
    \<and> workers s ! i \<noteq> Aborted Queue_nonempty"
proof -
  from assms(1,2) have "pool_inv s"
    by (blast intro: run_preserves constructed_inv)
  then have "worker_ok s i (workers s ! i)"
    using assms(3) by (rule pool_inv_nth)
  then show ?thesis
    by (auto simp: worker_ok_def)
qed

text \<open>One worker, one task submitted: the worker passes its wait with the pool running
  and the task in the queue.\<close>

theorem C5_assertion_never_fails_witness:
  "\<exists>s0 s. Simple_thread_pool 1 None = Inr s0
     \<and> run [Worker 0, Worker 0, Worker 0, Submit (Some (Task 1 Returns)) 0,
             Worker 0, Worker 0] s0 = Some s
     \<and> workers s ! 0 = Dispatch \<and> is_started s \<and> queue s \<noteq> []
     \<and> workers s ! 0 \<noteq> Aborted Queue_nonempty"
proof -
  let ?s0 = "(members None)\<lparr>is_started := True, workers := [Acquire]\<rparr>"
  let ?es = "[Worker 0, Worker 0, Worker 0, Submit (Some (Task 1 Returns)) 0,
             Worker 0, Worker 0]"
  let ?s1 = "?s0\<lparr>queue := [Some (Task 1 Returns)], queue_mutex := Some 0, workers := [Dispatch]\<rparr>"
  have s0: "Simple_thread_pool 1 None = Inr ?s0"
    by (simp add: exec_simps)
  have s: "run ?es ?s0 = Some ?s1"
    by (simp add: exec_simps)
  have i: "0 < length (workers ?s1)" and d: "workers ?s1 ! 0 = Dispatch" "is_started ?s1"
    by simp_all
  from C5_assertion_never_fails [OF s0 s i] d
  have "queue ?s1 \<noteq> []" and "workers ?s1 ! 0 \<noteq> Aborted Queue_nonempty"
    by blast+
  with s0 s d show ?thesis by blast
qed


section \<open>First in, first out\<close>

text \<open>
  The tasks taken so far followed by the queue make up the history of the queue.
  A worker's action and the destructor's leave it as it is, submit appends to it,
  and only clear removes from it.
\<close>

lemma worker_fifo:
  "wait_and_run i s = Some s' \<Longrightarrow>
     map Some (dequeued s') @ queue s' = map Some (dequeued s) @ queue s"
  by (auto simp: wait_and_run_def set_worker_def call_and_catch_eq
      split: if_splits worker.splits list.splits option.splits)

lemma step_fifo:
  assumes "step e s = Some s'" and "e \<noteq> Clear"
  shows "map Some (dequeued s') @ queue s' = map Some (dequeued s) @ queue s @ submitted [e]"
proof (cases e)
  case (Worker i)
  with assms show ?thesis by (simp add: worker_fifo)
next
  case (Spurious i)
  with assms show ?thesis
    by (auto simp: spurious_wakeup_def set_worker_def split: if_splits)
next
  case Destroy
  with assms show ?thesis
    by (auto simp: destroy_def split: destructor.splits if_splits)
next
  case (Submit f w)
  with assms show ?thesis
    by (cases f) (auto simp: submit_def split: if_splits)
next
  case Clear
  with assms show ?thesis by simp
next
  case Queue_size
  with assms show ?thesis by (auto split: if_splits)
next
  case Size
  with assms show ?thesis by (auto split: if_splits)
qed

lemma step_subseq:
  assumes "step e s = Some s'"
  shows "subseq (map Some (dequeued s') @ queue s')
           (map Some (dequeued s) @ queue s @ submitted [e])"
proof (cases "e = Clear")
  case True
  with assms show ?thesis
    by (auto simp: clear_def split: if_splits)
next
  case False
  with assms show ?thesis by (simp add: step_fifo)
qed

lemma run_fifo:
  "run es s = Some s' \<Longrightarrow> Clear \<notin> set es \<Longrightarrow>
     map Some (dequeued s') @ queue s' = map Some (dequeued s) @ queue s @ submitted es"
proof (induction es arbitrary: s)
  case Nil
  then show ?case by simp
next
  case (Cons e es)
  from Cons.prems(1) obtain s1 where e: "step e s = Some s1" and es: "run es s1 = Some s'"
    by (rule run_Cons_Some)
  from Cons.prems(2) have "e \<noteq> Clear" "Clear \<notin> set es" by auto
  with Cons.IH [OF es] step_fifo [OF e] show ?case
    by (simp add: submitted_Cons [of e es])
qed

lemma run_subseq:
  "run es s = Some s' \<Longrightarrow>
     subseq (map Some (dequeued s') @ queue s')
       (map Some (dequeued s) @ queue s @ submitted es)"
proof (induction es arbitrary: s)
  case Nil
  then show ?case by simp
next
  case (Cons e es)
  from Cons.prems(1) obtain s1 where e: "step e s = Some s1" and es: "run es s1 = Some s'"
    by (rule run_Cons_Some)
  have "subseq ((map Some (dequeued s1) @ queue s1) @ submitted es)
          ((map Some (dequeued s) @ queue s @ submitted [e]) @ submitted es)"
    using step_subseq [OF e] by (rule list_emb_append_mono) simp
  with Cons.IH [OF es] show ?case
    by (simp add: submitted_Cons [of e es])
qed

text \<open>With one worker, what was taken from the queue has been called, in the same order,
  up to the task that is being called.\<close>

lemma step_single_worker:
  assumes "step e s = Some s'" and "length (workers s) = 1"
    and "executed s @ in_flight (workers s ! 0) = dequeued s"
  shows "executed s' @ in_flight (workers s' ! 0) = dequeued s'"
proof (cases e)
  case (Worker i)
  with assms(1) have "i < length (workers s)"
    by (simp add: wait_and_run_def split: if_splits)
  with assms(2) have "i = 0" by simp
  with Worker assms show ?thesis
    by (auto simp: wait_and_run_def set_worker_def call_and_catch_eq
        split: if_splits worker.splits list.splits option.splits)
next
  case (Spurious i)
  with assms show ?thesis
    by (auto simp: spurious_wakeup_def set_worker_def nth_list_update split: if_splits)
next
  case Destroy
  with assms show ?thesis
    by (auto simp: destroy_def notify_all_nth split: destructor.splits if_splits)
next
  case (Submit f w)
  with assms show ?thesis
    by (cases f) (auto simp: submit_def notify_one_nth split: if_splits)
next
  case Clear
  with assms show ?thesis by (auto simp: clear_def split: if_splits)
next
  case Queue_size
  with assms show ?thesis by (auto split: if_splits)
next
  case Size
  with assms show ?thesis by (auto split: if_splits)
qed

lemma run_single_worker:
  "run es s = Some s' \<Longrightarrow> length (workers s) = 1 \<Longrightarrow>
     executed s @ in_flight (workers s ! 0) = dequeued s \<Longrightarrow>
     executed s' @ in_flight (workers s' ! 0) = dequeued s'"
proof (induction es arbitrary: s)
  case Nil
  then show ?case by simp
next
  case (Cons e es)
  from Cons.prems(1) obtain s1 where e: "step e s = Some s1" and es: "run es s1 = Some s'"
    by (rule run_Cons_Some)
  from step_length_workers [OF e] Cons.prems(2) have "length (workers s1) = 1" by simp
  with es show ?case
    using step_single_worker [OF e Cons.prems(2,3)] by (rule Cons.IH)
qed


text \<open>
  C2. For a constructed pool and any interleaving: the tasks taken from the queue,
  followed by the queue, are in submission order (a subsequence of the accepted
  submissions, and all of them when clear was never called); a worker that passes
  its wait with the pool running takes the item at the front of the queue; and
  with exactly one worker the tasks are called in the order they were taken, so
  in submission order.
\<close>

theorem C2_fifo:
  assumes "Simple_thread_pool n lg = Inr s0" and "run es s0 = Some s"
  shows "subseq (map Some (dequeued s) @ queue s) (submitted es)
    \<and> (Clear \<notin> set es \<longrightarrow> map Some (dequeued s) @ queue s = submitted es)
    \<and> (n = 1 \<longrightarrow> executed s @ in_flight (workers s ! 0) = dequeued s)
    \<and> (\<forall>i < length (workers s). workers s ! i = Dispatch \<and> is_started s \<longrightarrow>
         (\<exists>t s'. step (Worker i) s = Some s' \<and> queue s = Some t # queue s'
            \<and> workers s' ! i = Executing t \<and> dequeued s' = dequeued s @ [t]))"
proof (intro conjI impI allI)
  note s0 = constructed [OF assms(1)]
  from run_subseq [OF assms(2)] show "subseq (map Some (dequeued s) @ queue s) (submitted es)"
    by (simp add: s0 members_def)
  show "map Some (dequeued s) @ queue s = submitted es" if "Clear \<notin> set es"
    using run_fifo [OF assms(2) that] by (simp add: s0 members_def)
  show "executed s @ in_flight (workers s ! 0) = dequeued s" if "n = 1"
    using run_single_worker [OF assms(2)] that by (simp add: s0 members_def)
  fix i assume i: "i < length (workers s)" and d: "workers s ! i = Dispatch \<and> is_started s"
  from assms have inv: "pool_inv s"
    by (blast intro: run_preserves constructed_inv)
  from pool_inv_nth [OF inv i] d have "queue s \<noteq> []" by (simp add: worker_ok_def)
  then obtain f r where fr: "queue s = f # r"
    by (cases "queue s") auto
  with pool_inv_queue [OF inv] obtain t where "f = Some t" by (cases f) auto
  with fr i d show "\<exists>t s'. step (Worker i) s = Some s' \<and> queue s = Some t # queue s'
            \<and> workers s' ! i = Executing t \<and> dequeued s' = dequeued s @ [t]"
    by (simp add: wait_and_run_def set_worker_def)
qed

text \<open>One worker, two tasks: the worker takes the first, calls it, takes the second.\<close>

theorem C2_fifo_witness:
  "\<exists>s0 s1 s2. Simple_thread_pool 1 None = Inr s0
     \<and> run [Submit (Some (Task 1 Returns)) 0, Submit (Some (Task 2 Returns)) 0,
             Worker 0, Worker 0] s0 = Some s1
     \<and> workers s1 ! 0 = Dispatch \<and> is_started s1
     \<and> (\<exists>t s'. step (Worker 0) s1 = Some s' \<and> queue s1 = Some t # queue s'
            \<and> workers s' ! 0 = Executing t \<and> dequeued s' = dequeued s1 @ [t])
     \<and> run [Submit (Some (Task 1 Returns)) 0, Submit (Some (Task 2 Returns)) 0,
             Worker 0, Worker 0, Worker 0, Worker 0, Worker 0, Worker 0, Worker 0] s0 = Some s2
     \<and> executed s2 = [Task 1 Returns] \<and> in_flight (workers s2 ! 0) = [Task 2 Returns]
     \<and> executed s2 @ in_flight (workers s2 ! 0) = dequeued s2
     \<and> map Some (dequeued s2) @ queue s2 = [Some (Task 1 Returns), Some (Task 2 Returns)]"
proof -
  let ?a = "Task 1 Returns" and ?b = "Task 2 Returns"
  let ?s0 = "(members None)\<lparr>is_started := True, workers := [Acquire]\<rparr>"
  let ?es1 = "[Submit (Some ?a) 0, Submit (Some ?b) 0, Worker 0, Worker 0]"
  let ?es2 = "[Submit (Some ?a) 0, Submit (Some ?b) 0,
             Worker 0, Worker 0, Worker 0, Worker 0, Worker 0, Worker 0, Worker 0]"
  let ?s1 = "?s0\<lparr>queue := [Some ?a, Some ?b], queue_mutex := Some 0, workers := [Dispatch]\<rparr>"
  let ?s2 = "?s0\<lparr>queue := [], workers := [Executing ?b], dequeued := [?a, ?b],
               executed := [?a]\<rparr>"
  have s0: "Simple_thread_pool 1 None = Inr ?s0"
    by (simp add: exec_simps)
  have s1: "run ?es1 ?s0 = Some ?s1"
    by (simp add: exec_simps)
  have s2: "run ?es2 ?s0 = Some ?s2"
    by (simp add: exec_simps)
  have d: "0 < length (workers ?s1)" "workers ?s1 ! 0 = Dispatch \<and> is_started ?s1"
    by simp_all
  from C2_fifo [OF s0 s1, THEN conjunct2, THEN conjunct2, THEN conjunct2, rule_format, OF d]
  have front: "\<exists>t s'. step (Worker 0) ?s1 = Some s' \<and> queue ?s1 = Some t # queue s'
            \<and> workers s' ! 0 = Executing t \<and> dequeued s' = dequeued ?s1 @ [t]" .
  have nc: "Clear \<notin> set ?es2" by simp
  from C2_fifo [OF s0 s2] nc
  have "map Some (dequeued ?s2) @ queue ?s2 = submitted ?es2"
    and "executed ?s2 @ in_flight (workers ?s2 ! 0) = dequeued ?s2"
    by blast+
  then have order: "map Some (dequeued ?s2) @ queue ?s2 = [Some ?a, Some ?b]"
    "executed ?s2 @ in_flight (workers ?s2 ! 0) = dequeued ?s2"
    by simp_all
  have "executed ?s2 = [?a]" "in_flight (workers ?s2 ! 0) = [?b]"
    by simp_all
  with s0 s1 s2 d front order show ?thesis
    by (intro exI [of _ ?s0] exI [of _ ?s1] exI [of _ ?s2] conjI) simp_all
qed


section \<open>Clearing the queue\<close>

text \<open>
  No action brings a task into the pool except a submit: the tasks called, in
  flight or queued after an action were so before, or were submitted by it.
\<close>

lemma in_flight_update:
  "tasks_in_flight (ws[i := v]) \<subseteq> set (in_flight v) \<union> tasks_in_flight ws"
  using set_update_subset_insert [of ws i v] by (auto simp: tasks_in_flight_def)

lemma in_flight_nth:
  "i < length ws \<Longrightarrow> ws ! i = Executing t \<Longrightarrow> t \<in> tasks_in_flight ws"
  unfolding tasks_in_flight_def using nth_mem [of i ws] by force

lemma in_flight_notify_all: "tasks_in_flight (notify_all ws) \<subseteq> tasks_in_flight ws"
  by (auto simp: tasks_in_flight_def notify_all_def split: if_splits)

lemma in_flight_notify_one: "tasks_in_flight (notify_one w ws) \<subseteq> tasks_in_flight ws"
  using in_flight_update [of ws w Reacquire] by (auto simp: notify_one_def)

lemma present_update:
  assumes "workers s' = (workers s)[i := v]"
    and "set (in_flight v) \<subseteq> tasks_present s"
    and "set (executed s') \<subseteq> tasks_present s"
    and "set (queue s') \<subseteq> set (queue s)"
  shows "tasks_present s' \<subseteq> tasks_present s"
  using assms in_flight_update [of "workers s" i v]
  by (auto simp: tasks_present_def)

lemma worker_present:
  assumes st: "wait_and_run i s = Some s'"
  shows "tasks_present s' \<subseteq> tasks_present s"
proof -
  from st have i: "i < length (workers s)"
    by (simp add: wait_and_run_def split: if_splits)
  have ex: "set (executed s) \<subseteq> tasks_present s"
    by (auto simp: tasks_present_def)
  show ?thesis
  proof (cases "workers s ! i")
    case Acquire
    with st i have s': "s' = set_worker i Test_pred (s\<lparr>queue_mutex := Some i\<rparr>)"
      by (simp add: wait_and_run_def split: if_splits)
    show ?thesis
      by (rule present_update [where i = i and v = Test_pred])
        (use ex in \<open>simp_all add: s' set_worker_def\<close>)
  next
    case Test_pred
    let ?v = "if queue s \<noteq> [] \<or> \<not> is_started s then Dispatch else Enter_wait"
    from Test_pred st i have s': "s' = set_worker i ?v s"
      by (simp add: wait_and_run_def)
    show ?thesis
      by (rule present_update [where i = i and v = ?v])
        (use ex in \<open>simp_all add: s' set_worker_def\<close>)
  next
    case Enter_wait
    with st i have s': "s' = set_worker i Blocked (s\<lparr>queue_mutex := None\<rparr>)"
      by (simp add: wait_and_run_def)
    show ?thesis
      by (rule present_update [where i = i and v = Blocked])
        (use ex in \<open>simp_all add: s' set_worker_def\<close>)
  next
    case Blocked
    with st i show ?thesis by (simp add: wait_and_run_def)
  next
    case Reacquire
    with st i have s': "s' = set_worker i Test_pred (s\<lparr>queue_mutex := Some i\<rparr>)"
      by (simp add: wait_and_run_def split: if_splits)
    show ?thesis
      by (rule present_update [where i = i and v = Test_pred])
        (use ex in \<open>simp_all add: s' set_worker_def\<close>)
  next
    case Dispatch
    with st i have "\<exists>v. workers s' = (workers s)[i := v]
        \<and> set (in_flight v) \<subseteq> {t. Some t \<in> set (queue s)}
        \<and> executed s' = executed s \<and> set (queue s') \<subseteq> set (queue s)"
      by (auto simp: wait_and_run_def set_worker_def split: if_splits list.splits option.splits)
    then obtain v where w: "workers s' = (workers s)[i := v]"
      and v: "set (in_flight v) \<subseteq> {t. Some t \<in> set (queue s)}"
      and e: "executed s' = executed s" and q: "set (queue s') \<subseteq> set (queue s)"
      by blast
    show ?thesis
      by (rule present_update [OF w _ _ q]) (use v e in \<open>auto simp: tasks_present_def\<close>)
  next
    case (Executing t)
    with st i have s': "s' = set_worker i Acquire (call_and_catch t s)"
      by (simp add: wait_and_run_def)
    show ?thesis
      by (rule present_update [where i = i and v = Acquire])
        (use in_flight_nth [OF i Executing] in
          \<open>auto simp: s' set_worker_def call_and_catch_eq tasks_present_def\<close>)
  next
    case Terminated
    with st i show ?thesis by (simp add: wait_and_run_def)
  next
    case (Aborted a)
    with st i show ?thesis by (simp add: wait_and_run_def)
  qed
qed

lemma step_present:
  assumes "step e s = Some s'"
  shows "tasks_present s' \<subseteq> tasks_present s \<union> {t. Some t \<in> set (submitted [e])}"
proof (cases e)
  case (Worker i)
  with assms worker_present [of i s s'] show ?thesis by auto
next
  case (Spurious i)
  with assms in_flight_update [of "workers s" i Reacquire] show ?thesis
    by (auto simp: spurious_wakeup_def set_worker_def tasks_present_def split: if_splits)
next
  case Destroy
  with assms in_flight_notify_all [of "workers s"] show ?thesis
    by (auto simp: destroy_def tasks_present_def split: destructor.splits if_splits)
next
  case (Submit f w)
  with assms in_flight_notify_one [of w "workers s"] show ?thesis
    by (cases f) (auto simp: submit_def tasks_present_def split: if_splits)
next
  case Clear
  with assms show ?thesis by (auto simp: clear_def tasks_present_def split: if_splits)
next
  case Queue_size
  with assms show ?thesis by (auto split: if_splits)
next
  case Size
  with assms show ?thesis by (auto split: if_splits)
qed

lemma run_present:
  "run es s = Some s' \<Longrightarrow>
     tasks_present s' \<subseteq> tasks_present s \<union> {t. Some t \<in> set (submitted es)}"
proof (induction es arbitrary: s)
  case Nil
  then show ?case by simp
next
  case (Cons e es)
  from Cons.prems(1) obtain s1 where e: "step e s = Some s1" and es: "run es s1 = Some s'"
    by (rule run_Cons_Some)
  from Cons.IH [OF es] step_present [OF e] show ?case
    unfolding submitted_Cons [of e es] by auto
qed

lemma step_executed_grows:
  "step e s = Some s' \<Longrightarrow> prefix (executed s) (executed s')"
  by (cases e)
    (auto simp: wait_and_run_def spurious_wakeup_def destroy_def submit_def clear_def
        set_worker_def call_and_catch_eq
        split: if_splits worker.splits destructor.splits list.splits option.splits)

lemma run_executed_grows:
  "run es s = Some s' \<Longrightarrow> prefix (executed s) (executed s')"
proof (induction es arbitrary: s)
  case Nil
  then show ?case by simp
next
  case (Cons e es)
  from Cons.prems(1) obtain s1 where e: "step e s = Some s1" and es: "run es s1 = Some s'"
    by (rule run_Cons_Some)
  from step_executed_grows [OF e] Cons.IH [OF es] show ?case
    by (rule prefix_order.trans)
qed


text \<open>
  C6. clear() is total and has no error result. It runs when \<^verbatim>\<open>queue_mutex_\<close> is
  free and empties the queue, so \<^verbatim>\<open>queue_size\<close>() is 0 right after it. The workers,
  and with them the tasks already taken, are untouched: a worker that is calling a
  task completes the call. Whatever happens afterwards, a task that is called was
  called before the clear, was in flight at the clear, or was submitted after it;
  the discarded tasks are none of these.
\<close>

theorem C6_clear:
  "queue_size (clear s) = 0
   \<and> step Clear s = (if queue_mutex s = None then Some (clear s) else None)
   \<and> workers (clear s) = workers s
   \<and> executed (clear s) = executed s
   \<and> is_started (clear s) = is_started s
   \<and> (\<forall>i t. i < length (workers s) \<and> workers s ! i = Executing t \<longrightarrow>
         (\<exists>s'. wait_and_run i (clear s) = Some s' \<and> executed s' = executed s @ [t]))
   \<and> (\<forall>es s'. run es (clear s) = Some s' \<longrightarrow>
         prefix (executed s) (executed s')
         \<and> set (executed s') \<subseteq>
             set (executed s) \<union> tasks_in_flight (workers s) \<union> {t. Some t \<in> set (submitted es)})"
proof -
  have later: "prefix (executed s) (executed s')
      \<and> set (executed s') \<subseteq>
          set (executed s) \<union> tasks_in_flight (workers s) \<union> {t. Some t \<in> set (submitted es)}"
    if r: "run es (clear s) = Some s'" for es s'
  proof
    from run_executed_grows [OF r] show "prefix (executed s) (executed s')"
      by (simp add: clear_def)
    have "set (executed s') \<subseteq> tasks_present s'"
      by (auto simp: tasks_present_def)
    also note run_present [OF r]
    finally show "set (executed s') \<subseteq>
          set (executed s) \<union> tasks_in_flight (workers s) \<union> {t. Some t \<in> set (submitted es)}"
      by (simp add: tasks_present_def clear_def)
  qed
  have taken: "\<exists>s'. wait_and_run i (clear s) = Some s' \<and> executed s' = executed s @ [t]"
    if "i < length (workers s) \<and> workers s ! i = Executing t" for i t
    using that by (simp add: wait_and_run_def clear_def set_worker_def call_and_catch_eq)
  from later taken show ?thesis
    by (simp add: clear_def queue_size_def)
qed

text \<open>Two workers; the first has taken task 1, tasks 2 and 3 are queued when clear() runs.
  Task 1 is called; tasks 2 and 3 are never called, and the workers end up blocked.\<close>

theorem C6_clear_witness:
  "\<exists>s0 s s'. Simple_thread_pool 2 None = Inr s0
     \<and> run [Submit (Some (Task 1 Returns)) 0, Worker 0, Worker 0, Worker 0,
             Submit (Some (Task 2 Returns)) 0, Submit (Some (Task 3 Returns)) 0] s0 = Some s
     \<and> queue s = [Some (Task 2 Returns), Some (Task 3 Returns)]
     \<and> workers s = [Executing (Task 1 Returns), Acquire]
     \<and> step Clear s = Some (clear s) \<and> queue_size (clear s) = 0
     \<and> (\<exists>s1. wait_and_run 0 (clear s) = Some s1 \<and> executed s1 = [Task 1 Returns])
     \<and> run [Worker 0, Worker 0, Worker 0, Worker 0, Worker 1, Worker 1, Worker 1] (clear s)
         = Some s'
     \<and> workers s' = [Blocked, Blocked]
     \<and> set (executed s') \<subseteq> {Task 1 Returns}"
proof -
  let ?a = "Task 1 Returns" and ?b = "Task 2 Returns" and ?c = "Task 3 Returns"
  let ?s0 = "(members None)\<lparr>is_started := True, workers := [Acquire, Acquire]\<rparr>"
  let ?s1 = "?s0\<lparr>queue := [Some ?b, Some ?c], workers := [Executing ?a, Acquire],
               dequeued := [?a]\<rparr>"
  let ?s2 = "?s0\<lparr>workers := [Blocked, Blocked], dequeued := [?a], executed := [?a]\<rparr>"
  let ?es = "[Worker 0, Worker 0, Worker 0, Worker 0, Worker 1, Worker 1, Worker 1]"
  have s0: "Simple_thread_pool 2 None = Inr ?s0"
    by (simp add: exec_simps numeral_2_eq_2)
  have s1: "run [Submit (Some ?a) 0, Worker 0, Worker 0, Worker 0,
             Submit (Some ?b) 0, Submit (Some ?c) 0] ?s0 = Some ?s1"
    by (simp add: exec_simps)
  have s2: "run ?es (clear ?s1) = Some ?s2"
    by (simp add: exec_simps)
  note after = C6_clear [of ?s1, THEN conjunct2, THEN conjunct2, THEN conjunct2,
      THEN conjunct2, THEN conjunct2, THEN conjunct2, rule_format, OF s2, THEN conjunct2]
  have "tasks_in_flight (workers ?s1) = {?a}"
    by (auto simp: tasks_in_flight_def)
  with after have sub: "set (executed ?s2) \<subseteq> {?a}"
    by (simp add: members_def)
  have clr: "step Clear ?s1 = Some (clear ?s1)" "queue_size (clear ?s1) = 0"
    using C6_clear [of ?s1] by (simp_all add: members_def)
  have "0 < length (workers ?s1) \<and> workers ?s1 ! 0 = Executing ?a"
    by simp
  from C6_clear [of ?s1, THEN conjunct2, THEN conjunct2, THEN conjunct2,
      THEN conjunct2, THEN conjunct2, THEN conjunct1, rule_format, OF this]
  obtain s3 where fly: "wait_and_run 0 (clear ?s1) = Some s3" "executed s3 = [?a]"
    by (auto simp: members_def)
  have q: "queue ?s1 = [Some ?b, Some ?c]" and w1: "workers ?s1 = [Executing ?a, Acquire]"
    and w2: "workers ?s2 = [Blocked, Blocked]"
    by simp_all
  show ?thesis
    by (intro exI conjI) (rule s0 s1 q w1 clr fly s2 w2 sub)+
qed


section \<open>Shutdown\<close>

text \<open>
  The destructor clears the flag and notifies while it holds \<^verbatim>\<open>work_mutex_\<close>; the
  workers test the flag and block while they hold \<^verbatim>\<open>queue_mutex_\<close>. When no worker
  stands between its test and its wait, shutdown completes, also with tasks
  pending, which are then left in the queue and never called:
\<close>

lemma shutdown_with_pending_task:
  "\<exists>s0 s. Simple_thread_pool 1 None = Inr s0
     \<and> run [Submit (Some (Task 1 Returns)) 0, Destroy, Destroy, Destroy,
             Worker 0, Worker 0, Worker 0, Destroy, Destroy] s0 = Some s
     \<and> workers s = [Terminated] \<and> destructor s = Destroyed
     \<and> queue s = [Some (Task 1 Returns)] \<and> executed s = []"
  by (simp add: exec_simps)

text \<open>
  C1. The claim is that destruction completes for every pool and that no worker
  misses the wakeup. The code does not have this property. With one worker and an
  empty queue, let the worker lock \<^verbatim>\<open>queue_mutex_\<close> and find its predicate false
  (the pool runs, the queue is empty); before it blocks, the destructor locks
  \<^verbatim>\<open>work_mutex_\<close>, clears the flag and calls \<^verbatim>\<open>notify_all\<close>, which finds no
  blocked worker; then the worker blocks. In the state reached the flag is false,
  the worker is blocked on the condition variable and the destructor is in
  \<^verbatim>\<open>join\<close> for it: neither the worker nor the destructor has an action, clear()
  and \<^verbatim>\<open>queue_size\<close>() change nothing, and size() waits for \<^verbatim>\<open>work_mutex_\<close>. Only
  a later submit or a spurious wakeup could unblock the worker.
\<close>

theorem C1_missed_wakeup:
  "\<exists>s0 s. Simple_thread_pool 1 None = Inr s0
     \<and> run [Worker 0, Worker 0, Destroy, Destroy, Destroy, Worker 0] s0 = Some s
     \<and> queue s = [] \<and> \<not> is_started s \<and> work_mutex s
     \<and> workers s = [Blocked] \<and> destructor s = Join 0
     \<and> step Destroy s = None \<and> (\<forall>i. step (Worker i) s = None)
     \<and> step Clear s = Some s \<and> step Queue_size s = Some s \<and> step Size s = None"
  by (simp add: exec_simps)

end
